theory Spec2Isabelle
  imports Complex_Main "HOL-Library.AList" "HOL-Library.Multiset"
begin

section \<open>Data model\<close>

text \<open>
  The interfaces of \<^verbatim>\<open>ConversationView.tsx\<close> and \<^verbatim>\<open>App.tsx\<close>. An optional field
  \<^verbatim>\<open>f?: T\<close> is a \<open>T option\<close>, with \<open>None\<close> for an absent field. The fields
  \<^verbatim>\<open>text\<close> and \<^verbatim>\<open>id\<close> are written \<open>text'\<close> and \<open>id'\<close>. The payload fields
  \<^verbatim>\<open>input\<close>, \<^verbatim>\<open>content\<close> and \<^verbatim>\<open>summary\<close> of a block are never read by the
  functions modelled here and are left out.
\<close>

record ContentBlock =
  type :: string
  text' :: "string option"
  id' :: "string option"
  name :: "string option"
  tool_use_id :: "string option"
  is_error :: "bool option"

text \<open>
  The values other than a string and an array that \<^verbatim>\<open>JSON.parse\<close> can put into the
  \<^verbatim>\<open>content\<close> field of a message: the field is absent (\<^verbatim>\<open>undefined\<close>), \<^verbatim>\<open>null\<close>,
  a boolean, a number, or an object. A number is held as its canonical rendering
  (\<^verbatim>\<open>Number::toString\<close>), an object as the list of its own keys: its values are JSON
  values, so none of them is callable.
\<close>

datatype jsvalue =
  JUndefined
  | JNull
  | JBoolean bool
  | JNumber string
  | JObject "string list"

datatype content = CString string | CArray "ContentBlock list" | COther jsvalue

datatype Role = User | Assistant

record Message =
  role :: Role
  content :: content
  ts :: real
  isSummary :: "bool option"
  condenseId :: "string option"
  condenseParent :: "string option"
  isTruncationMarker :: "bool option"
  truncationId :: "string option"
  truncationParent :: "string option"

record Task =
  id' :: string
  timestamp :: real
  firstMessage :: string

datatype error = TypeError

text \<open>
  JavaScript truthiness of an optional string and of an optional boolean, as tested by
  \<^verbatim>\<open>m.condenseId && ...\<close>: \<^verbatim>\<open>undefined\<close>, the empty string and \<^verbatim>\<open>false\<close> are falsy.
\<close>

definition truthy_string :: "string option \<Rightarrow> bool" where
  "truthy_string v = (case v of None \<Rightarrow> False | Some s \<Rightarrow> s \<noteq> [])"

definition truthy_boolean :: "bool option \<Rightarrow> bool" where
  "truthy_boolean v = (case v of None \<Rightarrow> False | Some b \<Rightarrow> b)"

section \<open>ContentNormalizer\<close>

text \<open>
  The builtin \<^verbatim>\<open>String(v)\<close> on the values above (ECMAScript \<open>ToString\<close>). On an object
  it is \<open>OrdinaryToPrimitive\<close> with hint string: the property \<^verbatim>\<open>toString\<close> is read first
  and called if callable, then \<^verbatim>\<open>valueOf\<close>; when neither call gives a primitive a
  \<^verbatim>\<open>TypeError\<close> is thrown. An object from \<^verbatim>\<open>JSON.parse\<close> inherits
  \<^verbatim>\<open>Object.prototype.toString\<close>, which gives \<^verbatim>\<open>[object Object]\<close>, unless an own key
  \<^verbatim>\<open>toString\<close> shadows it with a JSON value, which is not callable; then
  \<^verbatim>\<open>valueOf\<close> (own, not callable, or inherited, returning the object itself) gives no
  primitive either, and the call throws.
\<close>

fun String :: "jsvalue \<Rightarrow> error + string" where
  "String JUndefined = Inr ''undefined''"
| "String JNull = Inr ''null''"
| "String (JBoolean b) = Inr (if b then ''true'' else ''false'')"
| "String (JNumber rendering) = Inr rendering"
| "String (JObject keys) =
     (if ''toString'' \<in> set keys then Inl TypeError else Inr ''[object Object]'')"

text \<open>The object literal \<^verbatim>\<open>{ type: 'text', text: s }\<close>.\<close>

definition text_block :: "string \<Rightarrow> ContentBlock" where
  "text_block s =
     \<lparr>type = ''text'', text' = Some s, id' = None, name = None, tool_use_id = None,
      is_error = None\<rparr>"

fun normalizeContent :: "content \<Rightarrow> error + ContentBlock list" where
  "normalizeContent (CString s) = Inr [text_block s]"
| "normalizeContent (COther v) =
     (case String v of Inl e \<Rightarrow> Inl e | Inr s \<Rightarrow> Inr [text_block s])"
| "normalizeContent (CArray blocks) = Inr blocks"

section \<open>CondensationReachability\<close>

definition existingSummaryIds :: "Message list \<Rightarrow> string set" where
  "existingSummaryIds messages =
     set (map (\<lambda>m. the (condenseId m))
       (filter (\<lambda>m. truthy_boolean (isSummary m) \<and> truthy_string (condenseId m)) messages))"

definition existingTruncationIds :: "Message list \<Rightarrow> string set" where
  "existingTruncationIds messages =
     set (map (\<lambda>m. the (truncationId m))
       (filter (\<lambda>m. truthy_boolean (isTruncationMarker m) \<and> truthy_string (truncationId m))
         messages))"

definition hiddenCount :: "Message list \<Rightarrow> nat" where
  "hiddenCount messages =
     length (filter (\<lambda>m.
       (truthy_string (condenseParent m) \<and> the (condenseParent m) \<in> existingSummaryIds messages) \<or>
       (truthy_string (truncationParent m) \<and>
          the (truncationParent m) \<in> existingTruncationIds messages)) messages)"

definition filteredMessages :: "Message list \<Rightarrow> bool \<Rightarrow> Message list" where
  "filteredMessages messages filterCondensed =
     (if \<not> filterCondensed then messages
      else filter (\<lambda>m.
        if truthy_string (condenseParent m) \<and> the (condenseParent m) \<in> existingSummaryIds messages
        then False
        else if truthy_string (truncationParent m) \<and>
                the (truncationParent m) \<in> existingTruncationIds messages
        then False
        else True) messages)"

text \<open>
  What the component hands to rendering: the filtered sequence and the hidden count, for
  the messages and the state of the toggle.
\<close>

record View =
  shown :: "Message list"
  hidden :: nat

definition ConversationView :: "Message list \<Rightarrow> bool \<Rightarrow> View" where
  "ConversationView messages filterCondensed =
     \<lparr>shown = filteredMessages messages filterCondensed, hidden = hiddenCount messages\<rparr>"

subsection \<open>The specification's words\<close>

text \<open>
  A message carries an id when the field is present and not the empty string. It is
  superseded when it carries a \<^verbatim>\<open>condenseParent\<close> that is the \<^verbatim>\<open>condenseId\<close> of a
  message of the sequence with \<^verbatim>\<open>isSummary\<close> true, or a \<^verbatim>\<open>truncationParent\<close> that is
  the \<^verbatim>\<open>truncationId\<close> of a message with \<^verbatim>\<open>isTruncationMarker\<close> true.
\<close>

definition superseded :: "Message list \<Rightarrow> Message \<Rightarrow> bool" where
  "superseded messages m \<longleftrightarrow>
     (truthy_string (condenseParent m) \<and>
        (\<exists>s \<in> set messages. isSummary s = Some True \<and> condenseId s = condenseParent m)) \<or>
     (truthy_string (truncationParent m) \<and>
        (\<exists>s \<in> set messages. isTruncationMarker s = Some True \<and>
           truncationId s = truncationParent m))"

definition is_marker :: "Message \<Rightarrow> bool" where
  "is_marker m \<longleftrightarrow> isSummary m = Some True \<or> isTruncationMarker m = Some True"

text \<open>The messages of the specification's example, as \<open>A\<close>, \<open>B\<close> and \<open>S1\<close>.\<close>

definition plain :: "string \<Rightarrow> Message" where
  "plain s =
     \<lparr>role = User, content = CString s, ts = 0, isSummary = None, condenseId = None,
      condenseParent = None, isTruncationMarker = None, truncationId = None,
      truncationParent = None\<rparr>"

definition msgA :: Message where
  "msgA = plain ''A''"

definition msgB :: Message where
  "msgB = (plain ''B'')\<lparr>condenseParent := Some ''S1''\<rparr>"

definition msgS1 :: Message where
  "msgS1 = (plain ''S1'')\<lparr>role := Assistant, isSummary := Some True, condenseId := Some ''S1''\<rparr>"

definition msgS2 :: Message where
  "msgS2 = (plain ''S2'')\<lparr>role := Assistant, isSummary := Some True, condenseId := Some ''S2''\<rparr>"

text \<open>A summary that a later summary supersedes, and a message that names no marker.\<close>

definition msgS1_condensed :: Message where
  "msgS1_condensed = msgS1\<lparr>condenseParent := Some ''S2''\<rparr>"

definition msgC :: Message where
  "msgC = (plain ''C'')\<lparr>condenseParent := Some ''S9'', truncationParent := Some ''T9''\<rparr>"

section \<open>ToolPairingIndex\<close>

record ToolUsePosition =
  messageIndex :: nat
  blockIndex :: nat

text \<open>
  The body of the inner \<^verbatim>\<open>forEach\<close>, on the pair of \<^verbatim>\<open>toolResultIds\<close> and
  \<^verbatim>\<open>toolUsePositions\<close>. The \<^verbatim>\<open>Map\<close> is an association list in insertion order:
  \<^verbatim>\<open>Map.set\<close> on a key already present replaces its value in place, on a new key it
  appends, which is \<open>AList.update\<close>.
\<close>

type_synonym pairing = "string set \<times> (string \<times> ToolUsePosition) list"

definition scan_block :: "nat \<Rightarrow> nat \<times> ContentBlock \<Rightarrow> pairing \<Rightarrow> pairing" where
  "scan_block mIndex ib st =
     (case ib of (bIndex, block) \<Rightarrow>
      case st of (toolResultIds, toolUsePositions) \<Rightarrow>
        (if type block = ''tool_result'' \<and> truthy_string (tool_use_id block)
         then insert (the (tool_use_id block)) toolResultIds
         else toolResultIds,
         if type block = ''tool_use'' \<and> truthy_string (ContentBlock.id' block)
         then AList.update (the (ContentBlock.id' block))
                \<lparr>messageIndex = mIndex, blockIndex = bIndex\<rparr> toolUsePositions
         else toolUsePositions))"

text \<open>
  The outer \<^verbatim>\<open>forEach\<close> over the messages with their indices. An exception thrown by
  \<^verbatim>\<open>normalizeContent\<close> leaves the loop.
\<close>

fun scan_messages :: "(nat \<times> Message) list \<Rightarrow> pairing \<Rightarrow> error + pairing" where
  "scan_messages [] st = Inr st"
| "scan_messages ((mIndex, message) # rest) st =
     (case normalizeContent (content message) of
        Inl e \<Rightarrow> Inl e
      | Inr blocks \<Rightarrow> scan_messages rest (fold (scan_block mIndex) (enumerate 0 blocks) st))"

definition collect_missing ::
  "string set \<Rightarrow> int \<Rightarrow> string \<times> ToolUsePosition \<Rightarrow> string set \<Rightarrow> string set" where
  "collect_missing toolResultIds lastMessageIndex entry missingResults =
     (case entry of (toolUseId, position) \<Rightarrow>
        if toolUseId \<notin> toolResultIds then
          (let hasMessageAfter = int (messageIndex position) < lastMessageIndex
           in if hasMessageAfter then insert toolUseId missingResults else missingResults)
        else missingResults)"

definition toolUsesMissingResults :: "Message list \<Rightarrow> error + string set" where
  "toolUsesMissingResults messages =
     (case scan_messages (enumerate 0 messages) ({}, []) of
        Inl e \<Rightarrow> Inl e
      | Inr (toolResultIds, toolUsePositions) \<Rightarrow>
          (let lastMessageIndex = int (length messages) - 1
           in Inr (fold (collect_missing toolResultIds lastMessageIndex) toolUsePositions {})))"

subsection \<open>The specification's words\<close>

text \<open>
  The blocks of a message carry a tool use (a tool result) for an identifier, a string
  that is not empty.
\<close>

definition has_tool_use :: "string \<Rightarrow> ContentBlock list \<Rightarrow> bool" where
  "has_tool_use x blocks \<longleftrightarrow>
     x \<noteq> [] \<and> (\<exists>b \<in> set blocks. type b = ''tool_use'' \<and> ContentBlock.id' b = Some x)"

definition has_tool_result :: "string \<Rightarrow> ContentBlock list \<Rightarrow> bool" where
  "has_tool_result x blocks \<longleftrightarrow>
     x \<noteq> [] \<and> (\<exists>b \<in> set blocks. type b = ''tool_result'' \<and> tool_use_id b = Some x)"

text \<open>The blocks of a message, none where its content does not normalize.\<close>

definition blocks_of :: "Message \<Rightarrow> ContentBlock list" where
  "blocks_of m = (case normalizeContent (content m) of Inl e \<Rightarrow> [] | Inr blocks \<Rightarrow> blocks)"

definition normalizes :: "Message \<Rightarrow> bool" where
  "normalizes m \<longleftrightarrow> (case normalizeContent (content m) of Inl e \<Rightarrow> False | Inr blocks \<Rightarrow> True)"

definition tool_use_block :: "string \<Rightarrow> ContentBlock" where
  "tool_use_block x =
     \<lparr>type = ''tool_use'', text' = None, id' = Some x, name = Some ''read_file'',
      tool_use_id = None, is_error = None\<rparr>"

definition tool_result_block :: "string \<Rightarrow> ContentBlock" where
  "tool_result_block x =
     \<lparr>type = ''tool_result'', text' = None, id' = None, name = None,
      tool_use_id = Some x, is_error = None\<rparr>"

text \<open>
  The message that holds the tracked occurrence of an identifier: with last write wins, the
  last message that carries a tool use for it. \<open>tracked_message\<close> computes its index.
\<close>

fun tracked_message :: "string \<Rightarrow> Message list \<Rightarrow> nat option" where
  "tracked_message x [] = None"
| "tracked_message x (m # ms) =
     (case tracked_message x ms of
        Some k \<Rightarrow> Some (Suc k)
      | None \<Rightarrow> if has_tool_use x (blocks_of m) then Some 0 else None)"

definition tracked_in :: "string \<Rightarrow> Message list \<Rightarrow> nat \<Rightarrow> bool" where
  "tracked_in x messages k \<longleftrightarrow>
     k < length messages \<and> has_tool_use x (blocks_of (messages ! k)) \<and>
     (\<forall>j. k < j \<and> j < length messages \<longrightarrow> \<not> has_tool_use x (blocks_of (messages ! j)))"

text \<open>The conversations of the specification's example.\<close>

definition tool_message :: "ContentBlock list \<Rightarrow> Message" where
  "tool_message blocks = (plain [])\<lparr>role := Assistant, content := CArray blocks\<rparr>"

definition conv_unanswered :: "Message list" where
  "conv_unanswered = [plain ''question'', tool_message [tool_use_block ''t1''], plain ''next'']"

definition conv_in_flight :: "Message list" where
  "conv_in_flight = [plain ''question'', tool_message [tool_use_block ''t1'']]"

definition conv_answered :: "Message list" where
  "conv_answered =
     [plain ''question'', tool_message [tool_use_block ''t1''],
      tool_message [tool_result_block ''t1''], plain ''next'']"

definition conv_repeated :: "Message list" where
  "conv_repeated =
     [tool_message [tool_use_block ''t1''], plain ''next'', tool_message [tool_use_block ''t1'']]"

section \<open>TaskListReconciler\<close>

text \<open>
  \<^verbatim>\<open>Array.prototype.sort\<close> with a comparison function is a stable sort (ECMAScript 2019):
  \<open>a\<close> stays before \<open>b\<close> unless the comparison of \<open>a\<close> with \<open>b\<close> is positive. It is
  modelled by insertion from the right. The comparison function of the source is
  \<^verbatim>\<open>(a, b) => b.timestamp - a.timestamp\<close>.
\<close>

fun insert_sorted :: "('a \<Rightarrow> 'a \<Rightarrow> real) \<Rightarrow> 'a \<Rightarrow> 'a list \<Rightarrow> 'a list" where
  "insert_sorted compareFn a [] = [a]"
| "insert_sorted compareFn a (b # bs) =
     (if compareFn a b \<le> 0 then a # b # bs else b # insert_sorted compareFn a bs)"

definition sort_array :: "('a \<Rightarrow> 'a \<Rightarrow> real) \<Rightarrow> 'a list \<Rightarrow> 'a list" where
  "sort_array compareFn xs = foldr (insert_sorted compareFn) xs []"

definition by_timestamp_desc :: "Task \<Rightarrow> Task \<Rightarrow> real" where
  "by_timestamp_desc a b = timestamp b - timestamp a"

text \<open>The updater passed to \<^verbatim>\<open>setTasks\<close> by the task-list polling effect.\<close>

definition reconcile :: "Task list \<Rightarrow> Task list \<Rightarrow> Task list" where
  "reconcile prevTasks data =
     (let existingIds = set (map Task.id' prevTasks);
          newTasks = filter (\<lambda>t. Task.id' t \<notin> existingIds) data
      in if length newTasks = 0 then
           (let updatedTasks = map (\<lambda>prevTask.
                  case find (\<lambda>t. Task.id' t = Task.id' prevTask) data of
                    Some updated \<Rightarrow> prevTask\<lparr>timestamp := timestamp updated\<rparr>
                  | None \<Rightarrow> prevTask) prevTasks
            in sort_array by_timestamp_desc updatedTasks)
         else
           (let mergedTasks = newTasks @ prevTasks
            in sort_array by_timestamp_desc mergedTasks))"

subsection \<open>The specification's words\<close>

text \<open>
  A task of the held list after a poll: its timestamp is that of the matching incoming
  task, the first one with its id, when there is one; id and first message are kept.
\<close>

definition refreshed :: "Task list \<Rightarrow> Task \<Rightarrow> Task" where
  "refreshed incoming t =
     \<lparr>id' = Task.id' t,
      timestamp = (case find (\<lambda>u. Task.id' u = Task.id' t) incoming of
                     Some u \<Rightarrow> timestamp u | None \<Rightarrow> timestamp t),
      firstMessage = firstMessage t\<rparr>"

text \<open>
  \<open>ys\<close> is the stable sort of \<open>xs\<close>, descending by timestamp: the timestamps of \<open>ys\<close>
  never increase, and the tasks of each timestamp are those of \<open>xs\<close> in their order there.
\<close>

definition stable_desc_sort_of :: "Task list \<Rightarrow> Task list \<Rightarrow> bool" where
  "stable_desc_sort_of xs ys \<longleftrightarrow>
     sorted_wrt (\<lambda>a b. timestamp b \<le> timestamp a) ys \<and>
     (\<forall>k. filter (\<lambda>t. timestamp t = k) ys = filter (\<lambda>t. timestamp t = k) xs)"

definition task :: "string \<Rightarrow> real \<Rightarrow> Task" where
  "task i t = \<lparr>id' = i, timestamp = t, firstMessage = ''No message preview''\<rparr>"

section \<open>The polling loops and the loads of the application\<close>

datatype Source = Nightly | Production

record AppState =
  source :: Source
  tasks :: "Task list"
  selectedTask :: "string option"
  conversation :: "Message list option"
  loadingTasks :: bool
  loadingConversation :: bool
  error :: "string option"
  uploadedFileName :: "string option"

text \<open>
  How an awaited \<^verbatim>\<open>fetch\<close> followed by \<^verbatim>\<open>res.json()\<close> ends: the fetch rejects, or
  it gives a response with a status and a body, \<open>None\<close> when the body does not parse.
\<close>

datatype 'a fetched = Rejected | Response nat "'a option"

definition ok :: "nat \<Rightarrow> bool" where
  "ok status \<longleftrightarrow> 200 \<le> status \<and> status \<le> 299"

text \<open>The callback of the task-list interval, from the point where its fetch has settled.\<close>

definition poll_tasks_settled :: "Task list fetched \<Rightarrow> AppState \<Rightarrow> AppState" where
  "poll_tasks_settled r s =
     (case r of
        Rejected \<Rightarrow> s
      | Response status body \<Rightarrow>
          if \<not> ok status then s
          else (case body of
                  None \<Rightarrow> s
                | Some data \<Rightarrow> s\<lparr>tasks := reconcile (tasks s) data\<rparr>))"

text \<open>The callback of the conversation interval, from the same point.\<close>

definition poll_conversation_settled :: "Message list fetched \<Rightarrow> AppState \<Rightarrow> AppState" where
  "poll_conversation_settled r s =
     (case r of
        Rejected \<Rightarrow> s
      | Response status body \<Rightarrow>
          if \<not> ok status then s
          else (case body of
                  None \<Rightarrow> s
                | Some data \<Rightarrow> s\<lparr>conversation := Some data\<rparr>))"

text \<open>\<^verbatim>\<open>loadTasks\<close>, up to its fetch and from the point where the fetch has settled.\<close>

definition loadTasks_begin :: "AppState \<Rightarrow> AppState" where
  "loadTasks_begin s =
     s\<lparr>loadingTasks := True, error := None, selectedTask := None, conversation := None\<rparr>"

definition loadTasks_settled :: "Task list fetched \<Rightarrow> AppState \<Rightarrow> AppState" where
  "loadTasks_settled r s =
     (let failed = s\<lparr>error := Some ''Failed to load tasks. Make sure the server is running.''\<rparr>;
          s' = (case r of
                  Rejected \<Rightarrow> failed
                | Response status body \<Rightarrow>
                    if \<not> ok status then failed
                    else (case body of None \<Rightarrow> failed | Some data \<Rightarrow> s\<lparr>tasks := data\<rparr>))
      in s'\<lparr>loadingTasks := False\<rparr>)"

text \<open>
  \<^verbatim>\<open>loadConversation\<close>, after its guard and up to its fetch, and from the point where the
  fetch has settled. The second component tells that \<^verbatim>\<open>loadTasks()\<close> was called, which
  starts a fetch of the task list.
\<close>

definition loadConversation_begin :: "string \<Rightarrow> AppState \<Rightarrow> AppState" where
  "loadConversation_begin taskId s =
     s\<lparr>loadingConversation := True, error := None, selectedTask := Some taskId,
       conversation := None\<rparr>"

definition loadConversation_settled :: "Message list fetched \<Rightarrow> AppState \<Rightarrow> AppState \<times> bool" where
  "loadConversation_settled r s =
     (let failed = s\<lparr>error := Some ''Failed to load conversation'', selectedTask := None\<rparr>;
          (s', reload) =
            (case r of
               Rejected \<Rightarrow> (failed, False)
             | Response status body \<Rightarrow>
                 if \<not> ok status then
                   (if status = 404 then
                      (loadTasks_begin
                         (s\<lparr>error := Some ''Conversation not found. The task may have been deleted.'',
                            selectedTask := None\<rparr>), True)
                    else (failed, False))
                 else (case body of
                         None \<Rightarrow> (failed, False)
                       | Some data \<Rightarrow> (s\<lparr>conversation := Some data\<rparr>, False)))
      in (s'\<lparr>loadingConversation := False\<rparr>, reload))"

text \<open>
  The application with its fetches in flight. Each fetch is recorded with the source and
  the task id of the closure that started it. An event is a tick of one of the two
  intervals, an action of the user, or a fetch in flight that settles.
\<close>

datatype request =
  PollTasks Source
  | PollConversation Source string
  | LoadTasks Source
  | LoadConversation Source string

record System =
  app :: AppState
  inflight :: "request list"

datatype event =
  TaskListTick
  | ConversationTick
  | SelectTask string
  | Close
  | ChangeSource Source
  | SettleTasks nat "Task list fetched"
  | SettleConversation nat "Message list fetched"

definition without :: "nat \<Rightarrow> 'a list \<Rightarrow> 'a list" where
  "without i xs = take i xs @ drop (Suc i) xs"

fun step :: "event \<Rightarrow> System \<Rightarrow> System" where
  "step TaskListTick sys = sys\<lparr>inflight := inflight sys @ [PollTasks (source (app sys))]\<rparr>"
| "step ConversationTick sys =
     (if truthy_string (selectedTask (app sys))
      then sys\<lparr>inflight := inflight sys @
                 [PollConversation (source (app sys)) (the (selectedTask (app sys)))]\<rparr>
      else sys)"
| "step (SelectTask taskId) sys =
     (if loadingTasks (app sys) \<or> loadingConversation (app sys) \<or>
         taskId \<notin> set (map Task.id' (tasks (app sys)))
      then sys
      else \<lparr>app = loadConversation_begin taskId (app sys),
            inflight = inflight sys @ [LoadConversation (source (app sys)) taskId]\<rparr>)"
| "step Close sys =
     (if loadingConversation (app sys) \<or> conversation (app sys) = None then sys
      else sys\<lparr>app := (app sys)\<lparr>conversation := None, selectedTask := None,
                                uploadedFileName := None\<rparr>\<rparr>)"
| "step (ChangeSource newSource) sys =
     (if newSource = source (app sys) then sys
      else \<lparr>app = loadTasks_begin ((app sys)\<lparr>source := newSource\<rparr>),
            inflight = inflight sys @ [LoadTasks newSource]\<rparr>)"
| "step (SettleTasks i r) sys =
     (if i < length (inflight sys) then
        (case inflight sys ! i of
           PollTasks src \<Rightarrow>
             \<lparr>app = poll_tasks_settled r (app sys), inflight = without i (inflight sys)\<rparr>
         | LoadTasks src \<Rightarrow>
             \<lparr>app = loadTasks_settled r (app sys), inflight = without i (inflight sys)\<rparr>
         | _ \<Rightarrow> sys)
      else sys)"
| "step (SettleConversation i r) sys =
     (if i < length (inflight sys) then
        (case inflight sys ! i of
           PollConversation src taskId \<Rightarrow>
             \<lparr>app = poll_conversation_settled r (app sys), inflight = without i (inflight sys)\<rparr>
         | LoadConversation src taskId \<Rightarrow>
             (case loadConversation_settled r (app sys) of
                (s', reload) \<Rightarrow>
                  \<lparr>app = s',
                   inflight = without i (inflight sys) @ (if reload then [LoadTasks src] else [])\<rparr>)
         | _ \<Rightarrow> sys)
      else sys)"

definition run :: "event list \<Rightarrow> System \<Rightarrow> System" where
  "run events sys = fold step events sys"

text \<open>The application when it is mounted: the first effect has called \<^verbatim>\<open>loadTasks\<close>.\<close>

definition mounted :: System where
  "mounted =
     \<lparr>app = loadTasks_begin
        \<lparr>source = Nightly, tasks = [], selectedTask = None, conversation = None,
         loadingTasks = False, loadingConversation = False, error = None,
         uploadedFileName = None\<rparr>,
      inflight = [LoadTasks Nightly]\<rparr>"

text \<open>A fetch that throws or returns a non-success status.\<close>

definition failed :: "'a fetched \<Rightarrow> bool" where
  "failed r \<longleftrightarrow> (case r of Rejected \<Rightarrow> True | Response status body \<Rightarrow> \<not> ok status)"

text \<open>
  A run of the application: the task list arrives, the user selects task X, its
  conversation arrives, and the conversation interval ticks, which puts a fetch for X in
  flight. Then the user selects task Y and the conversation of Y arrives. Then the fetch
  for X that the tick started settles.
\<close>

definition convX :: "Message list" where
  "convX = [plain ''from X'']"

definition convY :: "Message list" where
  "convY = [plain ''from Y'']"

definition selected_X_polling :: "event list" where
  "selected_X_polling =
     [SettleTasks 0 (Response 200 (Some [task ''X'' 2, task ''Y'' 1])),
      SelectTask ''X'',
      SettleConversation 0 (Response 200 (Some convX)),
      ConversationTick]"

definition switched_to_Y :: "event list" where
  "switched_to_Y =
     selected_X_polling @
     [SelectTask ''Y'',
      SettleConversation 1 (Response 200 (Some convY))]"

definition stale_X_arrives :: "event list" where
  "stale_X_arrives = switched_to_Y @ [SettleConversation 0 (Response 200 (Some convX))]"

section \<open>Lemmas on filtering\<close>

lemma truthy_string_Some: "truthy_string v \<Longrightarrow> \<exists>s. v = Some s \<and> s \<noteq> []"
  by (cases v) (auto simp: truthy_string_def)

lemma truthy_boolean_iff: "truthy_boolean v \<longleftrightarrow> v = Some True"
  by (cases v) (auto simp: truthy_boolean_def)

lemma in_existingSummaryIds:
  "truthy_string p \<Longrightarrow>
     the p \<in> existingSummaryIds messages \<longleftrightarrow>
     (\<exists>s \<in> set messages. isSummary s = Some True \<and> condenseId s = p)"
proof -
  assume p: "truthy_string p"
  then obtain x where x: "p = Some x" "x \<noteq> []"
    using truthy_string_Some by blast
  show ?thesis
  proof
    assume "the p \<in> existingSummaryIds messages"
    then obtain s where s: "s \<in> set messages" "truthy_boolean (isSummary s)"
        "truthy_string (condenseId s)" "the (condenseId s) = x"
      using x by (auto simp: existingSummaryIds_def)
    from s(3,4) have "condenseId s = Some x"
      using truthy_string_Some by fastforce
    with s(1,2) x show "\<exists>s \<in> set messages. isSummary s = Some True \<and> condenseId s = p"
      by (auto simp: truthy_boolean_iff)
  next
    assume "\<exists>s \<in> set messages. isSummary s = Some True \<and> condenseId s = p"
    then obtain s where "s \<in> set messages" "isSummary s = Some True" "condenseId s = p"
      by blast
    then show "the p \<in> existingSummaryIds messages"
      using p x by (force simp: existingSummaryIds_def truthy_boolean_iff)
  qed
qed

lemma in_existingTruncationIds:
  "truthy_string p \<Longrightarrow>
     the p \<in> existingTruncationIds messages \<longleftrightarrow>
     (\<exists>s \<in> set messages. isTruncationMarker s = Some True \<and> truncationId s = p)"
proof -
  assume p: "truthy_string p"
  then obtain x where x: "p = Some x" "x \<noteq> []"
    using truthy_string_Some by blast
  show ?thesis
  proof
    assume "the p \<in> existingTruncationIds messages"
    then obtain s where s: "s \<in> set messages" "truthy_boolean (isTruncationMarker s)"
        "truthy_string (truncationId s)" "the (truncationId s) = x"
      using x by (auto simp: existingTruncationIds_def)
    from s(3,4) have "truncationId s = Some x"
      using truthy_string_Some by fastforce
    with s(1,2) x
    show "\<exists>s \<in> set messages. isTruncationMarker s = Some True \<and> truncationId s = p"
      by (auto simp: truthy_boolean_iff)
  next
    assume "\<exists>s \<in> set messages. isTruncationMarker s = Some True \<and> truncationId s = p"
    then obtain s where "s \<in> set messages" "isTruncationMarker s = Some True"
        "truncationId s = p"
      by blast
    then show "the p \<in> existingTruncationIds messages"
      using p x by (force simp: existingTruncationIds_def truthy_boolean_iff)
  qed
qed

lemma superseded_code:
  "superseded messages m \<longleftrightarrow>
     (truthy_string (condenseParent m) \<and> the (condenseParent m) \<in> existingSummaryIds messages) \<or>
     (truthy_string (truncationParent m) \<and>
        the (truncationParent m) \<in> existingTruncationIds messages)"
  unfolding superseded_def
  using in_existingSummaryIds [of "condenseParent m" messages]
    in_existingTruncationIds [of "truncationParent m" messages]
  by blast

lemma filteredMessages_on:
  "filteredMessages messages True = filter (\<lambda>m. \<not> superseded messages m) messages"
  unfolding filteredMessages_def
  by (auto simp: superseded_code intro!: filter_cong)

lemma hiddenCount_superseded:
  "hiddenCount messages = length (filter (superseded messages) messages)"
  unfolding hiddenCount_def
  by (rule arg_cong [where f = length], rule filter_cong) (auto simp: superseded_code)

section \<open>ContentNormalizer: the claim\<close>

lemma normalizeContent_Inl_iff:
  "(\<exists>e. normalizeContent c = Inl e) \<longleftrightarrow>
     (\<exists>keys. c = COther (JObject keys) \<and> ''toString'' \<in> set keys)"
proof (cases c)
  case (COther v)
  then show ?thesis by (cases v) auto
qed auto

text \<open>
  C9, as amended. \<^verbatim>\<open>normalizeContent\<close> gives, for a string, exactly one block, of type
  text, carrying that string; for an array, the array unchanged; for any other value whose
  stringification \<^verbatim>\<open>String(v)\<close> returns, exactly one text block carrying it. It raises
  exactly on an object with an own key \<^verbatim>\<open>toString\<close>, where \<^verbatim>\<open>String\<close> itself throws.
\<close>

theorem normalizeContent_reference:
  "normalizeContent (CString s) = Inr [text_block s] \<and>
   type (text_block s) = ''text'' \<and> text' (text_block s) = Some s \<and>
   normalizeContent (CArray blocks) = Inr blocks \<and>
   (String v = Inr r \<longrightarrow> normalizeContent (COther v) = Inr [text_block r]) \<and>
   ((\<exists>e. normalizeContent c = Inl e) \<longleftrightarrow>
      (\<exists>keys. c = COther (JObject keys) \<and> ''toString'' \<in> set keys))"
  using normalizeContent_Inl_iff [of c] by (simp add: text_block_def)

theorem normalizeContent_reference_witness:
  "String JNull = Inr ''null'' \<and>
   normalizeContent (COther JNull) = Inr [text_block ''null''] \<and>
   normalizeContent (COther (JObject [''role''])) = Inr [text_block ''[object Object]''] \<and>
   \<not> (\<exists>e. normalizeContent (CArray []) = Inl e)"
  using normalizeContent_reference [of "''x''" "[]" JNull "''null''" "CArray []"]
  by simp

text \<open>
  C9 as stated fails: on the content \<^verbatim>\<open>{"toString": 1}\<close>, which is neither a string nor
  an array, \<^verbatim>\<open>normalizeContent\<close> raises a \<^verbatim>\<open>TypeError\<close> and yields no block.
\<close>

theorem normalizeContent_raises:
  "normalizeContent (COther (JObject [''toString''])) = Inl TypeError"
  by simp

section \<open>CondensationReachability: the claims\<close>

text \<open>
  C1. With the toggle enabled the filtered sequence consists exactly of the messages that
  are not superseded, in their order; with the toggle disabled it is the input sequence.
  For \<open>[A, B(condenseParent = S1), S1(isSummary, condenseId = S1)]\<close>, filtering on yields
  \<open>[A, S1]\<close> with hidden count 1, and filtering off yields all three messages.
\<close>

theorem filteredMessages_exact:
  "filteredMessages messages True = filter (\<lambda>m. \<not> superseded messages m) messages \<and>
   filteredMessages messages False = messages \<and>
   filteredMessages [msgA, msgB, msgS1] True = [msgA, msgS1] \<and>
   hiddenCount [msgA, msgB, msgS1] = 1 \<and>
   filteredMessages [msgA, msgB, msgS1] False = [msgA, msgB, msgS1]"
proof -
  have general: "filteredMessages messages True = filter (\<lambda>m. \<not> superseded messages m) messages"
    by (rule filteredMessages_on)
  have off: "filteredMessages ms False = ms" for ms
    by (simp add: filteredMessages_def)
  have sup: "superseded [msgA, msgB, msgS1] msgB" "\<not> superseded [msgA, msgB, msgS1] msgA"
    "\<not> superseded [msgA, msgB, msgS1] msgS1"
    by (simp_all add: superseded_def msgA_def msgB_def msgS1_def plain_def truthy_string_def)
  have on: "filteredMessages [msgA, msgB, msgS1] True = [msgA, msgS1]"
    by (simp add: filteredMessages_on sup)
  have count: "hiddenCount [msgA, msgB, msgS1] = 1"
    by (simp add: hiddenCount_superseded sup)
  show ?thesis
    using general off on count by simp
qed

text \<open>A message whose parents name ids that no marker of the sequence carries is kept.\<close>

theorem filteredMessages_exact_witness:
  "filteredMessages [msgA, msgC, msgS1] True = [msgA, msgC, msgS1]"
proof -
  have "\<not> superseded [msgA, msgC, msgS1] msgA" "\<not> superseded [msgA, msgC, msgS1] msgC"
    "\<not> superseded [msgA, msgC, msgS1] msgS1"
    by (simp_all add: superseded_def msgA_def msgC_def msgS1_def plain_def truthy_string_def)
  then show ?thesis
    using filteredMessages_exact [of "[msgA, msgC, msgS1]"] by simp
qed

text \<open>
  C3, as amended. With the toggle enabled, a marker message of the sequence is kept exactly
  when it is not itself superseded: a marker that is not superseded is never dropped, and
  a marker that is superseded is dropped as any other message is.
\<close>

theorem marker_kept_iff:
  "m \<in> set messages \<Longrightarrow> is_marker m \<Longrightarrow>
     (m \<in> set (filteredMessages messages True) \<longleftrightarrow> \<not> superseded messages m)"
  by (simp add: filteredMessages_on)

theorem marker_kept_iff_witness:
  "msgS1 \<in> set [msgA, msgB, msgS1] \<and> is_marker msgS1 \<and>
   msgS1 \<in> set (filteredMessages [msgA, msgB, msgS1] True) \<and>
   \<not> superseded [msgA, msgB, msgS1] msgS1"
proof -
  have mem: "msgS1 \<in> set [msgA, msgB, msgS1]" by simp
  have marker: "is_marker msgS1" by (simp add: is_marker_def msgS1_def)
  have "\<not> superseded [msgA, msgB, msgS1] msgS1"
    by (simp add: superseded_def msgA_def msgB_def msgS1_def plain_def truthy_string_def)
  then show ?thesis
    using marker_kept_iff [OF mem marker] mem marker by simp
qed

text \<open>
  C3 as stated fails: in \<open>[S1(isSummary, condenseId = S1, condenseParent = S2),
  S2(isSummary, condenseId = S2)]\<close> the marker \<open>S1\<close> is dropped.
\<close>

theorem marker_dropped:
  "is_marker msgS1_condensed \<and> msgS1_condensed \<in> set [msgS1_condensed, msgS2] \<and>
   filteredMessages [msgS1_condensed, msgS2] True = [msgS2]"
proof -
  have "superseded [msgS1_condensed, msgS2] msgS1_condensed"
    "\<not> superseded [msgS1_condensed, msgS2] msgS2"
    by (simp_all add: superseded_def msgS1_condensed_def msgS1_def msgS2_def plain_def
        truthy_string_def)
  then show ?thesis
    by (simp add: filteredMessages_on is_marker_def msgS1_condensed_def msgS1_def)
qed

text \<open>
  C7. The hidden count is the number of superseded messages of the full sequence, for
  either state of the toggle; with the toggle enabled it is the number of messages that
  the filtered sequence lacks.
\<close>

theorem hidden_count_independent:
  "hidden (ConversationView messages filterCondensed) =
     length (filter (superseded messages) messages) \<and>
   hidden (ConversationView messages True) = hidden (ConversationView messages False) \<and>
   hidden (ConversationView messages False) + length (shown (ConversationView messages True)) =
     length messages"
  by (simp add: ConversationView_def hiddenCount_superseded filteredMessages_on
      sum_length_filter_compl)

theorem hidden_count_independent_witness:
  "hidden (ConversationView [msgA, msgB, msgS1] False) = 1 \<and>
   shown (ConversationView [msgA, msgB, msgS1] False) = [msgA, msgB, msgS1]"
proof -
  have "superseded [msgA, msgB, msgS1] msgB" "\<not> superseded [msgA, msgB, msgS1] msgA"
    "\<not> superseded [msgA, msgB, msgS1] msgS1"
    by (simp_all add: superseded_def msgA_def msgB_def msgS1_def plain_def truthy_string_def)
  then show ?thesis
    using hidden_count_independent [of "[msgA, msgB, msgS1]" False]
    by (simp add: ConversationView_def filteredMessages_def)
qed

section \<open>ToolPairingIndex: the claim\<close>

lemma has_tool_result_Cons:
  "has_tool_result x (b # bs) \<longleftrightarrow> has_tool_result x [b] \<or> has_tool_result x bs"
  by (auto simp: has_tool_result_def)

lemma has_tool_use_Cons:
  "has_tool_use x (b # bs) \<longleftrightarrow> has_tool_use x [b] \<or> has_tool_use x bs"
  by (auto simp: has_tool_use_def)

lemma scan_block_results:
  "fst (scan_block i (j, b) (R, P)) = R \<union> {x. has_tool_result x [b]}"
  by (auto simp: scan_block_def has_tool_result_def truthy_string_def split: option.splits)

lemma scan_block_distinct:
  "distinct (map fst P) \<Longrightarrow> distinct (map fst (snd (scan_block i (j, b) (R, P))))"
  by (simp add: scan_block_def AList.distinct_update)

lemma scan_block_positions:
  "map_option messageIndex (map_of (snd (scan_block i (j, b) (R, P))) x) =
     (if has_tool_use x [b] then Some i else map_option messageIndex (map_of P x))"
  by (auto simp: scan_block_def has_tool_use_def truthy_string_def AList.update_conv'
      split: option.splits)

lemma fold_scan_block:
  "fold (scan_block i) (enumerate n blocks) (R, P) = (R', P') \<Longrightarrow>
     R' = R \<union> {x. has_tool_result x blocks} \<and>
     (distinct (map fst P) \<longrightarrow> distinct (map fst P')) \<and>
     (\<forall>x. map_option messageIndex (map_of P' x) =
        (if has_tool_use x blocks then Some i else map_option messageIndex (map_of P x)))"
proof (induction blocks arbitrary: n R P)
  case Nil
  then show ?case by (simp add: has_tool_result_def has_tool_use_def)
next
  case (Cons b bs)
  obtain R1 P1 where step: "scan_block i (n, b) (R, P) = (R1, P1)"
    by (cases "scan_block i (n, b) (R, P)")
  from Cons.prems step have rest: "fold (scan_block i) (enumerate (Suc n) bs) (R1, P1) = (R', P')"
    by simp
  note IH = Cons.IH [OF rest]
  have R1: "R1 = R \<union> {x. has_tool_result x [b]}"
    using scan_block_results [of i n b R P] step by simp
  have D1: "distinct (map fst P) \<Longrightarrow> distinct (map fst P1)"
    using scan_block_distinct [of P i n b R] step by simp
  have M1: "map_option messageIndex (map_of P1 x) =
      (if has_tool_use x [b] then Some i else map_option messageIndex (map_of P x))" for x
    using scan_block_positions [of i n b R P x] step by simp
  have "R' = R \<union> {x. has_tool_result x (b # bs)}"
    using IH R1 by (auto simp: has_tool_result_Cons [of _ b bs])
  moreover have "distinct (map fst P) \<longrightarrow> distinct (map fst P')"
    using IH D1 by blast
  moreover have "map_option messageIndex (map_of P' x) =
        (if has_tool_use x (b # bs) then Some i else map_option messageIndex (map_of P x))" for x
    using IH M1 [of x] by (simp add: has_tool_use_Cons [of x b bs])
  ultimately show ?case by blast
qed


lemma tracked_message_None:
  "tracked_message x ms = None \<longleftrightarrow> (\<forall>m \<in> set ms. \<not> has_tool_use x (blocks_of m))"
  by (induction ms) (auto split: option.splits)

lemma tracked_message_Some:
  "tracked_message x ms = Some k \<longleftrightarrow>
     k < length ms \<and> has_tool_use x (blocks_of (ms ! k)) \<and>
     (\<forall>j. k < j \<and> j < length ms \<longrightarrow> \<not> has_tool_use x (blocks_of (ms ! j)))"
proof (induction ms arbitrary: k)
  case Nil
  then show ?case by simp
next
  case (Cons m ms)
  show ?case
  proof (cases "tracked_message x ms")
    case None
    then have none: "\<forall>m \<in> set ms. \<not> has_tool_use x (blocks_of m)"
      by (simp add: tracked_message_None)
    show ?thesis
    proof (cases k)
      case 0
      have "(\<forall>j. 0 < j \<and> j < Suc (length ms) \<longrightarrow> \<not> has_tool_use x (blocks_of ((m # ms) ! j)))"
        using none by (auto simp: nth_Cons split: nat.splits)
      then show ?thesis using None 0 by simp
    next
      case (Suc k')
      have "k' < length ms \<Longrightarrow> \<not> has_tool_use x (blocks_of (ms ! k'))"
        using none by simp
      then show ?thesis using None Suc by auto
    qed
  next
    case (Some i)
    then have i: "i < length ms" "has_tool_use x (blocks_of (ms ! i))"
      using Cons.IH [of i] by auto
    show ?thesis
    proof (cases k)
      case 0
      have "\<not> (\<forall>j. 0 < j \<and> j < Suc (length ms) \<longrightarrow> \<not> has_tool_use x (blocks_of ((m # ms) ! j)))"
        using i by (auto intro!: exI [of _ "Suc i"])
      then show ?thesis using Some 0 by simp
    next
      case (Suc k')
      have "(\<forall>j. Suc k' < j \<and> j < Suc (length ms) \<longrightarrow> \<not> has_tool_use x (blocks_of ((m # ms) ! j)))
          \<longleftrightarrow> (\<forall>j. k' < j \<and> j < length ms \<longrightarrow> \<not> has_tool_use x (blocks_of (ms ! j)))"
      proof
        assume a: "\<forall>j. Suc k' < j \<and> j < Suc (length ms) \<longrightarrow> \<not> has_tool_use x (blocks_of ((m # ms) ! j))"
        show "\<forall>j. k' < j \<and> j < length ms \<longrightarrow> \<not> has_tool_use x (blocks_of (ms ! j))"
        proof (intro allI impI)
          fix j assume "k' < j \<and> j < length ms"
          then show "\<not> has_tool_use x (blocks_of (ms ! j))"
            using a [rule_format, of "Suc j"] by simp
        qed
      next
        assume a: "\<forall>j. k' < j \<and> j < length ms \<longrightarrow> \<not> has_tool_use x (blocks_of (ms ! j))"
        show "\<forall>j. Suc k' < j \<and> j < Suc (length ms) \<longrightarrow> \<not> has_tool_use x (blocks_of ((m # ms) ! j))"
        proof (intro allI impI)
          fix j assume j: "Suc k' < j \<and> j < Suc (length ms)"
          then obtain j' where "j = Suc j'" by (cases j) auto
          then show "\<not> has_tool_use x (blocks_of ((m # ms) ! j))"
            using a [rule_format, of j'] j by simp
        qed
      qed
      then show ?thesis using Some Suc Cons.IH [of k'] by simp
    qed
  qed
qed

lemma normalizes_blocks_of:
  "normalizes m \<Longrightarrow> normalizeContent (content m) = Inr (blocks_of m)"
  by (auto simp: normalizes_def blocks_of_def split: sum.splits)

lemma not_normalizes:
  "\<not> normalizes m \<Longrightarrow> normalizeContent (content m) = Inl TypeError"
proof -
  assume "\<not> normalizes m"
  then obtain e where "normalizeContent (content m) = Inl e"
    by (auto simp: normalizes_def split: sum.splits)
  then show ?thesis by (cases e) simp
qed

lemma scan_messages_ok:
  "list_all normalizes msgs \<Longrightarrow> distinct (map fst P) \<Longrightarrow>
     \<exists>R' P'. scan_messages (enumerate n msgs) (R, P) = Inr (R', P') \<and>
       R' = R \<union> {x. \<exists>m \<in> set msgs. has_tool_result x (blocks_of m)} \<and>
       distinct (map fst P') \<and>
       (\<forall>x. map_option messageIndex (map_of P' x) =
          (case tracked_message x msgs of
             None \<Rightarrow> map_option messageIndex (map_of P x)
           | Some k \<Rightarrow> Some (n + k)))"
proof (induction msgs arbitrary: n R P)
  case Nil
  then show ?case by simp
next
  case (Cons m ms)
  from Cons.prems have nm: "normalizes m" and nms: "list_all normalizes ms"
    by simp_all
  obtain R1 P1 where inner:
    "fold (scan_block n) (enumerate 0 (blocks_of m)) (R, P) = (R1, P1)"
    by (cases "fold (scan_block n) (enumerate 0 (blocks_of m)) (R, P)")
  note F = fold_scan_block [OF inner]
  from F Cons.prems(2) have d1: "distinct (map fst P1)" by blast
  from Cons.IH [OF nms d1, of "Suc n" R1] obtain R' P' where
    rest: "scan_messages (enumerate (Suc n) ms) (R1, P1) = Inr (R', P')" and
    R': "R' = R1 \<union> {x. \<exists>m \<in> set ms. has_tool_result x (blocks_of m)}" and
    d': "distinct (map fst P')" and
    M': "\<And>x. map_option messageIndex (map_of P' x) =
          (case tracked_message x ms of
             None \<Rightarrow> map_option messageIndex (map_of P1 x)
           | Some k \<Rightarrow> Some (Suc n + k))"
    by blast
  have run: "scan_messages (enumerate n (m # ms)) (R, P) = Inr (R', P')"
    using normalizes_blocks_of [OF nm] inner rest by simp
  have res: "R' = R \<union> {x. \<exists>m' \<in> set (m # ms). has_tool_result x (blocks_of m')}"
    using R' F by auto
  have pos: "map_option messageIndex (map_of P' x) =
          (case tracked_message x (m # ms) of
             None \<Rightarrow> map_option messageIndex (map_of P x)
           | Some k \<Rightarrow> Some (n + k))" for x
    using M' [of x] F by (simp split: option.splits)
  show ?case using run res d' pos by blast
qed

lemma scan_messages_raises:
  "\<not> list_all normalizes msgs \<Longrightarrow> scan_messages (enumerate n msgs) st = Inl TypeError"
proof (induction msgs arbitrary: n st)
  case Nil
  then show ?case by simp
next
  case (Cons m ms)
  show ?case
  proof (cases "normalizes m")
    case True
    with Cons.prems have "\<not> list_all normalizes ms" by simp
    from Cons.IH [OF this] show ?thesis
      using normalizes_blocks_of [OF True] by simp
  next
    case False
    then show ?thesis using not_normalizes by simp
  qed
qed

lemma fold_collect_missing:
  "fold (collect_missing R L) P M =
     M \<union> {x. \<exists>pos. (x, pos) \<in> set P \<and> x \<notin> R \<and> int (messageIndex pos) < L}"
  by (induction P arbitrary: M) (auto simp: collect_missing_def Let_def split: if_splits)


lemma tracked_message_in: "tracked_message x ms = Some k \<longleftrightarrow> tracked_in x ms k"
  by (simp add: tracked_message_Some tracked_in_def)

lemma uses_tracked:
  "(\<exists>m \<in> set ms. has_tool_use x (blocks_of m)) \<longleftrightarrow> (\<exists>k. tracked_in x ms k)"
  using tracked_message_None [of x ms] tracked_message_in [of x ms]
  by (cases "tracked_message x ms") auto

lemma missing_set:
  assumes ok: "list_all normalizes messages"
  shows "toolUsesMissingResults messages =
     Inr {x. (\<exists>k. tracked_message x messages = Some k \<and> Suc k < length messages) \<and>
             (\<forall>m \<in> set messages. \<not> has_tool_result x (blocks_of m))}"
proof -
  from scan_messages_ok [OF ok, of "[]" 0 "{}"] obtain R' P' where
    run: "scan_messages (enumerate 0 messages) ({}, []) = Inr (R', P')" and
    R': "R' = {x. \<exists>m \<in> set messages. has_tool_result x (blocks_of m)}" and
    d': "distinct (map fst P')" and
    M': "\<And>x. map_option messageIndex (map_of P' x) = tracked_message x messages"
    by (auto split: option.splits simp: option.case_eq_if)
  have entry: "(\<exists>pos. (x, pos) \<in> set P' \<and> int (messageIndex pos) < int (length messages) - 1)
      \<longleftrightarrow> (\<exists>k. tracked_message x messages = Some k \<and> Suc k < length messages)" for x
  proof -
    have "(\<exists>pos. (x, pos) \<in> set P' \<and> int (messageIndex pos) < int (length messages) - 1)
        \<longleftrightarrow> (\<exists>pos. map_of P' x = Some pos \<and> Suc (messageIndex pos) < length messages)"
      using d' by (auto simp: map_of_eq_Some_iff)
    also have "\<dots> \<longleftrightarrow> (\<exists>k. map_option messageIndex (map_of P' x) = Some k \<and>
        Suc k < length messages)"
      by auto
    finally show ?thesis by (simp add: M')
  qed
  have "toolUsesMissingResults messages =
      Inr {x. \<exists>pos. (x, pos) \<in> set P' \<and> x \<notin> R' \<and>
                int (messageIndex pos) < int (length messages) - 1}"
    by (simp add: toolUsesMissingResults_def run fold_collect_missing)
  also have "{x. \<exists>pos. (x, pos) \<in> set P' \<and> x \<notin> R' \<and>
                int (messageIndex pos) < int (length messages) - 1} =
      {x. (\<exists>k. tracked_message x messages = Some k \<and> Suc k < length messages) \<and>
          (\<forall>m \<in> set messages. \<not> has_tool_result x (blocks_of m))}"
    using entry R' by blast
  finally show ?thesis .
qed

text \<open>
  C2. When every content normalizes, the missing-result set holds an identifier exactly
  when some message carries a tool use for it, no message of the conversation carries a
  tool result for it, and the message \<open>k\<close> of its tracked occurrence, the last message with
  a tool use for it, is not the last message (\<open>Suc k < length messages\<close>). An identifier
  is a string that is not empty: the code tests \<^verbatim>\<open>block.id\<close> and
  \<^verbatim>\<open>block.tool_use_id\<close> for truthiness. When some content does not normalize, the
  exception of \<^verbatim>\<open>normalizeContent\<close> leaves the computation.
\<close>

theorem missing_results_characterization:
  "toolUsesMissingResults messages =
     (if list_all normalizes messages then
        Inr {x. (\<exists>m \<in> set messages. has_tool_use x (blocks_of m)) \<and>
                (\<forall>m \<in> set messages. \<not> has_tool_result x (blocks_of m)) \<and>
                (\<exists>k. tracked_in x messages k \<and> Suc k < length messages)}
      else Inl TypeError)"
proof (cases "list_all normalizes messages")
  case True
  have "{x. (\<exists>k. tracked_message x messages = Some k \<and> Suc k < length messages) \<and>
             (\<forall>m \<in> set messages. \<not> has_tool_result x (blocks_of m))} =
        {x. (\<exists>m \<in> set messages. has_tool_use x (blocks_of m)) \<and>
                (\<forall>m \<in> set messages. \<not> has_tool_result x (blocks_of m)) \<and>
                (\<exists>k. tracked_in x messages k \<and> Suc k < length messages)}"
    using uses_tracked [of messages] by (auto simp: tracked_message_in)
  then show ?thesis using missing_set [OF True] True by simp
next
  case False
  then show ?thesis
    by (simp add: toolUsesMissingResults_def scan_messages_raises)
qed


text \<open>
  The unanswered tool use \<open>t1\<close> is flagged in a message that is not the last one, and not
  flagged in the last message, nor when a later message answers it, nor when it occurs
  again in the last message.
\<close>

theorem missing_results_characterization_witness:
  "list_all normalizes conv_unanswered \<and>
   (\<exists>S. toolUsesMissingResults conv_unanswered = Inr S \<and> ''t1'' \<in> S) \<and>
   (\<exists>S. toolUsesMissingResults conv_in_flight = Inr S \<and> ''t1'' \<notin> S) \<and>
   (\<exists>S. toolUsesMissingResults conv_answered = Inr S \<and> ''t1'' \<notin> S) \<and>
   (\<exists>S. toolUsesMissingResults conv_repeated = Inr S \<and> ''t1'' \<notin> S)"
proof -
  have n: "list_all normalizes conv_unanswered" "list_all normalizes conv_in_flight"
    "list_all normalizes conv_answered" "list_all normalizes conv_repeated"
    by (simp_all add: conv_unanswered_def conv_in_flight_def conv_answered_def conv_repeated_def
        normalizes_def plain_def tool_message_def)
  have use: "has_tool_use ''t1'' (blocks_of (tool_message [tool_use_block ''t1'']))"
    by (simp add: has_tool_use_def blocks_of_def tool_message_def tool_use_block_def)
  have result: "has_tool_result ''t1'' (blocks_of (tool_message [tool_result_block ''t1'']))"
    by (simp add: has_tool_result_def blocks_of_def tool_message_def tool_result_block_def)
  have plain: "\<not> has_tool_use x (blocks_of (plain s))" "\<not> has_tool_result x (blocks_of (plain s))"
    "\<not> has_tool_result x (blocks_of (tool_message [tool_use_block y]))" for x s y
    by (simp_all add: has_tool_use_def has_tool_result_def blocks_of_def plain_def text_block_def
        tool_message_def tool_use_block_def)
  have t: "tracked_message ''t1'' conv_unanswered = Some 1"
    "tracked_message ''t1'' conv_in_flight = Some 1"
    "tracked_message ''t1'' conv_repeated = Some 2"
    by (simp_all add: conv_unanswered_def conv_in_flight_def conv_repeated_def use plain)
  have "''t1'' \<in> {x. (\<exists>m \<in> set conv_unanswered. has_tool_use x (blocks_of m)) \<and>
                (\<forall>m \<in> set conv_unanswered. \<not> has_tool_result x (blocks_of m)) \<and>
                (\<exists>k. tracked_in x conv_unanswered k \<and> Suc k < length conv_unanswered)}"
    using t by (simp add: tracked_message_in [symmetric]) (simp add: conv_unanswered_def use plain)
  moreover have "''t1'' \<notin> {x. (\<exists>m \<in> set conv_in_flight. has_tool_use x (blocks_of m)) \<and>
                (\<forall>m \<in> set conv_in_flight. \<not> has_tool_result x (blocks_of m)) \<and>
                (\<exists>k. tracked_in x conv_in_flight k \<and> Suc k < length conv_in_flight)}"
    using t by (simp add: tracked_message_in [symmetric]) (simp add: conv_in_flight_def)
  moreover have "''t1'' \<notin> {x. (\<exists>m \<in> set conv_answered. has_tool_use x (blocks_of m)) \<and>
                (\<forall>m \<in> set conv_answered. \<not> has_tool_result x (blocks_of m)) \<and>
                (\<exists>k. tracked_in x conv_answered k \<and> Suc k < length conv_answered)}"
    using result by (simp add: conv_answered_def)
  moreover have "''t1'' \<notin> {x. (\<exists>m \<in> set conv_repeated. has_tool_use x (blocks_of m)) \<and>
                (\<forall>m \<in> set conv_repeated. \<not> has_tool_result x (blocks_of m)) \<and>
                (\<exists>k. tracked_in x conv_repeated k \<and> Suc k < length conv_repeated)}"
    using t by (simp add: tracked_message_in [symmetric]) (simp add: conv_repeated_def)
  ultimately show ?thesis
    using missing_results_characterization [of conv_unanswered]
      missing_results_characterization [of conv_in_flight]
      missing_results_characterization [of conv_answered]
      missing_results_characterization [of conv_repeated] n
    by simp
qed

section \<open>TaskListReconciler: the claims\<close>

text \<open>The model of the sort: it is sorted, stable, and the library's stable sort.\<close>

lemma mset_insert_sorted: "mset (insert_sorted c a bs) = add_mset a (mset bs)"
  by (induction bs) auto

lemma mset_sort_array: "mset (sort_array c xs) = mset xs"
  unfolding sort_array_def by (induction xs) (auto simp: mset_insert_sorted)

lemma set_sort_array: "set (sort_array c xs) = set xs"
  using mset_sort_array [of c xs] by (metis set_mset_mset)

lemma sort_array_Cons: "sort_array c (x # xs) = insert_sorted c x (sort_array c xs)"
  by (simp add: sort_array_def)

lemma sort_array_Nil: "sort_array c [] = []"
  by (simp add: sort_array_def)

lemma by_timestamp_desc_le: "by_timestamp_desc a b \<le> 0 \<longleftrightarrow> timestamp b \<le> timestamp a"
  by (simp add: by_timestamp_desc_def)

lemma set_insert_sorted: "set (insert_sorted c a bs) = insert a (set bs)"
  by (induction bs) auto

lemma sorted_insert_sorted:
  "sorted_wrt (\<lambda>a b. timestamp b \<le> timestamp a) bs \<Longrightarrow>
     sorted_wrt (\<lambda>a b. timestamp b \<le> timestamp a) (insert_sorted by_timestamp_desc a bs)"
proof (induction bs)
  case Nil
  then show ?case by simp
next
  case (Cons b bs)
  then show ?case
    by (auto simp: by_timestamp_desc_le set_insert_sorted)
qed

lemma sorted_sort_array:
  "sorted_wrt (\<lambda>a b. timestamp b \<le> timestamp a) (sort_array by_timestamp_desc xs)"
  by (induction xs) (simp_all add: sort_array_Nil sort_array_Cons sorted_insert_sorted)

lemma filter_insert_sorted:
  "filter (\<lambda>t. timestamp t = k) (insert_sorted by_timestamp_desc a bs) =
     (if timestamp a = k then a # filter (\<lambda>t. timestamp t = k) bs
      else filter (\<lambda>t. timestamp t = k) bs)"
  by (induction bs) (auto simp: by_timestamp_desc_le)

lemma filter_sort_array:
  "filter (\<lambda>t. timestamp t = k) (sort_array by_timestamp_desc xs) =
     filter (\<lambda>t. timestamp t = k) xs"
  by (induction xs) (simp_all add: sort_array_Nil sort_array_Cons filter_insert_sorted)

lemma stable_desc_sort_array: "stable_desc_sort_of xs (sort_array by_timestamp_desc xs)"
  by (simp add: stable_desc_sort_of_def sorted_sort_array filter_sort_array)

lemma sort_array_sorted:
  "sorted_wrt (\<lambda>a b. timestamp b \<le> timestamp a) xs \<Longrightarrow> sort_array by_timestamp_desc xs = xs"
proof (induction xs)
  case Nil
  then show ?case by (simp add: sort_array_Nil)
next
  case (Cons x xs)
  then have "sort_array by_timestamp_desc xs = xs" by simp
  then show ?case using Cons.prems
    by (cases xs) (simp_all add: sort_array_Cons sort_array_Nil by_timestamp_desc_le)
qed

lemma refreshed_code:
  "(case find (\<lambda>t. Task.id' t = Task.id' p) data of
      Some updated \<Rightarrow> p\<lparr>timestamp := timestamp updated\<rparr>
    | None \<Rightarrow> p) = refreshed data p"
  by (cases p) (simp add: refreshed_def split: option.splits)

lemma no_new_iff:
  "filter (\<lambda>t. Task.id' t \<notin> set (map Task.id' prev)) data = [] \<longleftrightarrow>
     set (map Task.id' data) \<subseteq> set (map Task.id' prev)"
  by (auto simp: filter_empty_conv)

lemma reconcile_no_new:
  "set (map Task.id' data) \<subseteq> set (map Task.id' prev) \<Longrightarrow>
     reconcile prev data = sort_array by_timestamp_desc (map (refreshed data) prev)"
  using no_new_iff [of prev data]
  by (simp add: reconcile_def Let_def refreshed_code)

lemma reconcile_new:
  "\<not> set (map Task.id' data) \<subseteq> set (map Task.id' prev) \<Longrightarrow>
     reconcile prev data =
       sort_array by_timestamp_desc
         (filter (\<lambda>t. Task.id' t \<notin> set (map Task.id' prev)) data @ prev)"
  using no_new_iff [of prev data]
  by (simp add: reconcile_def Let_def)

lemma id_refreshed: "Task.id' (refreshed data p) = Task.id' p"
  by (simp add: refreshed_def)

lemma refreshed_idem: "refreshed data (refreshed data p) = refreshed data p"
  by (simp add: refreshed_def split: option.splits)

lemma ids_sort_array:
  "mset (map Task.id' (sort_array c xs)) = mset (map Task.id' xs)"
  using mset_sort_array [of c xs] by (metis mset_map)

lemma ids_reconcile:
  "mset (map Task.id' (reconcile prev data)) =
     mset (map Task.id' prev) +
     mset (filter (\<lambda>i. i \<notin> set (map Task.id' prev)) (map Task.id' data))"
proof (cases "set (map Task.id' data) \<subseteq> set (map Task.id' prev)")
  case True
  then have "filter (\<lambda>i. i \<notin> set (map Task.id' prev)) (map Task.id' data) = []"
    by (auto simp: filter_empty_conv)
  moreover have "map Task.id' (map (refreshed data) prev) = map Task.id' prev"
    by (simp add: id_refreshed)
  ultimately show ?thesis
    using True by (simp only: reconcile_no_new ids_sort_array mset.simps add_0_right)
next
  case False
  then have "reconcile prev data =
       sort_array by_timestamp_desc
         (filter (\<lambda>t. Task.id' t \<notin> set (map Task.id' prev)) data @ prev)"
    by (rule reconcile_new)
  then have "mset (map Task.id' (reconcile prev data)) =
      mset (map Task.id' (filter (\<lambda>t. Task.id' t \<notin> set (map Task.id' prev)) data @ prev))"
    by (simp only: ids_sort_array)
  then show ?thesis
    by (simp add: filter_map o_def)
qed

lemma reconcile_fixed:
  assumes sub: "set (map Task.id' data) \<subseteq> set (map Task.id' xs)"
    and sorted: "sorted_wrt (\<lambda>a b. timestamp b \<le> timestamp a) xs"
    and fixed: "\<forall>e \<in> set xs. refreshed data e = e"
  shows "reconcile xs data = xs"
proof -
  have "map (refreshed data) xs = xs"
    using fixed by (simp add: map_idI)
  then show ?thesis
    using sub sorted by (simp add: reconcile_no_new sort_array_sorted)
qed

lemma reconcile_idem_no_new:
  assumes sub: "set (map Task.id' data) \<subseteq> set (map Task.id' prev)"
  shows "reconcile (reconcile prev data) data = reconcile prev data"
proof (rule reconcile_fixed)
  have r: "reconcile prev data = sort_array by_timestamp_desc (map (refreshed data) prev)"
    using sub by (rule reconcile_no_new)
  show "set (map Task.id' data) \<subseteq> set (map Task.id' (reconcile prev data))"
    using sub ids_reconcile [of prev data] by (metis set_mset_mset set_mset_union sup.coboundedI1)
  show "sorted_wrt (\<lambda>a b. timestamp b \<le> timestamp a) (reconcile prev data)"
    by (simp add: r sorted_sort_array)
  show "\<forall>e \<in> set (reconcile prev data). refreshed data e = e"
    by (auto simp: r set_sort_array refreshed_idem)
qed


lemma find_SomeD: "find P xs = Some x \<Longrightarrow> x \<in> set xs \<and> P x"
  by (induction xs) (auto split: if_splits)

lemma refreshed_fixed_incoming:
  assumes d: "distinct (map Task.id' data)" and e: "e \<in> set data"
  shows "refreshed data e = e"
proof -
  from e have "find (\<lambda>u. Task.id' u = Task.id' e) data \<noteq> None"
    by (auto simp: find_None_iff)
  then obtain u where u: "find (\<lambda>u. Task.id' u = Task.id' e) data = Some u"
    by auto
  then have "u \<in> set data" "Task.id' u = Task.id' e"
    using find_SomeD [OF u] by simp_all
  with d e have "u = e"
    by (meson distinct_map inj_onD)
  with u show ?thesis
    by (simp add: refreshed_def)
qed

lemma refreshed_fixed_agreeing:
  assumes a: "\<forall>u \<in> set data. Task.id' u = Task.id' e \<longrightarrow> timestamp u = timestamp e"
  shows "refreshed data e = e"
proof (cases "find (\<lambda>u. Task.id' u = Task.id' e) data")
  case None
  then show ?thesis by (simp add: refreshed_def)
next
  case (Some u)
  from find_SomeD [OF Some] a have "timestamp u = timestamp e" by blast
  with Some show ?thesis by (simp add: refreshed_def)
qed

lemma ids_subset_reconcile:
  "set (map Task.id' data) \<subseteq> set (map Task.id' (reconcile prev data))"
proof -
  have "set (map Task.id' (reconcile prev data)) =
      set (map Task.id' prev) \<union>
      set (filter (\<lambda>i. i \<notin> set (map Task.id' prev)) (map Task.id' data))"
    using ids_reconcile [of prev data] by (metis set_mset_mset set_mset_union)
  then show ?thesis by auto
qed

lemma reconcile_idem_agreeing:
  assumes d: "distinct (map Task.id' data)"
    and a: "list_all (\<lambda>p. list_all (\<lambda>u. Task.id' u = Task.id' p \<longrightarrow>
              timestamp u = timestamp p) data) prev"
  shows "reconcile (reconcile prev data) data = reconcile prev data"
proof (cases "set (map Task.id' data) \<subseteq> set (map Task.id' prev)")
  case True
  then show ?thesis by (rule reconcile_idem_no_new)
next
  case False
  then have r: "reconcile prev data =
       sort_array by_timestamp_desc
         (filter (\<lambda>t. Task.id' t \<notin> set (map Task.id' prev)) data @ prev)"
    by (rule reconcile_new)
  show ?thesis
  proof (rule reconcile_fixed)
    show "set (map Task.id' data) \<subseteq> set (map Task.id' (reconcile prev data))"
      by (rule ids_subset_reconcile)
    show "sorted_wrt (\<lambda>a b. timestamp b \<le> timestamp a) (reconcile prev data)"
      by (simp add: r sorted_sort_array)
    show "\<forall>e \<in> set (reconcile prev data). refreshed data e = e"
    proof
      fix e assume "e \<in> set (reconcile prev data)"
      then consider "e \<in> set data" | "e \<in> set prev"
        by (auto simp: r set_sort_array)
      then show "refreshed data e = e"
      proof cases
        case 1
        then show ?thesis using d by (simp add: refreshed_fixed_incoming)
      next
        case 2
        with a have "\<forall>u \<in> set data. Task.id' u = Task.id' e \<longrightarrow> timestamp u = timestamp e"
          by (auto simp: list_all_iff)
        then show ?thesis by (rule refreshed_fixed_agreeing)
      qed
    qed
  qed
qed

lemma stable_desc_sort_unique:
  assumes "stable_desc_sort_of xs ys"
  shows "ys = sort_key (\<lambda>t. - timestamp t) xs"
proof (rule properties_for_sort_key [symmetric])
  from assms have f: "filter (\<lambda>t. timestamp t = k) ys = filter (\<lambda>t. timestamp t = k) xs" for k
    by (simp add: stable_desc_sort_of_def)
  show "mset ys = mset xs"
  proof (rule multiset_eqI)
    fix e
    have "count (mset ys) e = count (mset (filter (\<lambda>t. timestamp t = timestamp e) ys)) e"
      by simp
    also have "\<dots> = count (mset (filter (\<lambda>t. timestamp t = timestamp e) xs)) e"
      by (simp only: f)
    also have "\<dots> = count (mset xs) e"
      by simp
    finally show "count (mset ys) e = count (mset xs) e" .
  qed
  show "\<And>k. k \<in> set ys \<Longrightarrow>
      filter (\<lambda>x. - timestamp k = - timestamp x) ys =
      filter (\<lambda>x. - timestamp k = - timestamp x) xs"
  proof -
    fix k
    have eq: "filter (\<lambda>x. - timestamp k = - timestamp x) zs =
        filter (\<lambda>t. timestamp t = timestamp k) zs" for zs
      by (rule filter_cong) auto
    show "filter (\<lambda>x. - timestamp k = - timestamp x) ys =
      filter (\<lambda>x. - timestamp k = - timestamp x) xs"
      by (simp only: eq f)
  qed
  show "sorted (map (\<lambda>t. - timestamp t) ys)"
    using assms by (simp add: stable_desc_sort_of_def sorted_map)
qed

lemma sort_array_sort_key:
  "sort_array by_timestamp_desc xs = sort_key (\<lambda>t. - timestamp t) xs"
proof (rule properties_for_sort_key [symmetric])
  show "mset (sort_array by_timestamp_desc xs) = mset xs"
    by (rule mset_sort_array)
  show "\<And>k. k \<in> set (sort_array by_timestamp_desc xs) \<Longrightarrow>
      filter (\<lambda>x. - timestamp k = - timestamp x) (sort_array by_timestamp_desc xs) =
      filter (\<lambda>x. - timestamp k = - timestamp x) xs"
  proof -
    fix k
    have eq: "filter (\<lambda>x. - timestamp k = - timestamp x) ys =
        filter (\<lambda>t. timestamp t = timestamp k) ys" for ys
      by (rule filter_cong) auto
    show "filter (\<lambda>x. - timestamp k = - timestamp x) (sort_array by_timestamp_desc xs) =
      filter (\<lambda>x. - timestamp k = - timestamp x) xs"
      by (simp only: eq filter_sort_array)
  qed
  show "sorted (map (\<lambda>t. - timestamp t) (sort_array by_timestamp_desc xs))"
    using sorted_sort_array [of xs] by (simp add: sorted_map)
qed

text \<open>
  C4. When every incoming id occurs in the held list, the reconciled list is the stable
  sort, descending by timestamp, of the held tasks, each refreshed: id and first message
  kept, timestamp that of the matching incoming task when there is one, and no task
  removed. Otherwise it is the stable sort, descending by timestamp, of the new incoming
  tasks followed by all the held tasks, each unchanged. In particular the held list
  \<open>[{id: 1, ts: 10}]\<close> with an empty poll stays as it is.
\<close>

theorem reconcile_merge:
  "(set (map Task.id' incoming) \<subseteq> set (map Task.id' current) \<longrightarrow>
      stable_desc_sort_of (map (refreshed incoming) current) (reconcile current incoming)) \<and>
   (\<not> set (map Task.id' incoming) \<subseteq> set (map Task.id' current) \<longrightarrow>
      stable_desc_sort_of
        (filter (\<lambda>t. Task.id' t \<notin> set (map Task.id' current)) incoming @ current)
        (reconcile current incoming)) \<and>
   reconcile [task ''1'' 10] [] = [task ''1'' 10]"
proof -
  have "reconcile [task ''1'' 10] [] = [task ''1'' 10]"
    by (simp add: reconcile_def sort_array_def task_def)
  then show ?thesis
    by (simp add: reconcile_no_new reconcile_new stable_desc_sort_array)
qed

theorem reconcile_merge_witness:
  "set (map Task.id' [task ''1'' 20]) \<subseteq> set (map Task.id' [task ''1'' 10]) \<and>
   stable_desc_sort_of (map (refreshed [task ''1'' 20]) [task ''1'' 10])
     (reconcile [task ''1'' 10] [task ''1'' 20]) \<and>
   reconcile [task ''1'' 10] [task ''1'' 20] = [task ''1'' 20] \<and>
   \<not> set (map Task.id' [task ''2'' 30, task ''1'' 10]) \<subseteq> set (map Task.id' [task ''1'' 10]) \<and>
   stable_desc_sort_of
     (filter (\<lambda>t. Task.id' t \<notin> set (map Task.id' [task ''1'' 10])) [task ''2'' 30, task ''1'' 10] @
        [task ''1'' 10])
     (reconcile [task ''1'' 10] [task ''2'' 30, task ''1'' 10]) \<and>
   reconcile [task ''1'' 10] [task ''2'' 30, task ''1'' 10] = [task ''2'' 30, task ''1'' 10]"
proof -
  have a: "set (map Task.id' [task ''1'' 20]) \<subseteq> set (map Task.id' [task ''1'' 10])"
    by (simp add: task_def)
  have b: "\<not> set (map Task.id' [task ''2'' 30, task ''1'' 10]) \<subseteq> set (map Task.id' [task ''1'' 10])"
    by (simp add: task_def)
  have c: "reconcile [task ''1'' 10] [task ''1'' 20] = [task ''1'' 20]"
    "reconcile [task ''1'' 10] [task ''2'' 30, task ''1'' 10] = [task ''2'' 30, task ''1'' 10]"
    by (simp_all add: reconcile_def sort_array_def task_def by_timestamp_desc_def)
  show ?thesis
    using reconcile_merge [of "[task ''1'' 20]" "[task ''1'' 10]"]
      reconcile_merge [of "[task ''2'' 30, task ''1'' 10]" "[task ''1'' 10]"] a b c
    by simp
qed

text \<open>
  C6, as amended. A second reconciliation with the same payload changes nothing when every
  incoming id already occurs in the held list, and when the incoming ids are distinct and
  every incoming task with the id of a held task has the timestamp of that task. In every
  case the result of the second reconciliation is a fixed point: a third one changes
  nothing.
\<close>

theorem reconcile_idempotent_settled:
  "(set (map Task.id' incoming) \<subseteq> set (map Task.id' current) \<longrightarrow>
      reconcile (reconcile current incoming) incoming = reconcile current incoming) \<and>
   (distinct (map Task.id' incoming) \<and>
    list_all (\<lambda>p. list_all (\<lambda>u. Task.id' u = Task.id' p \<longrightarrow>
       timestamp u = timestamp p) incoming) current \<longrightarrow>
      reconcile (reconcile current incoming) incoming = reconcile current incoming) \<and>
   reconcile (reconcile (reconcile current incoming) incoming) incoming =
     reconcile (reconcile current incoming) incoming"
  using reconcile_idem_no_new [of incoming current] reconcile_idem_agreeing [of incoming current]
    reconcile_idem_no_new [OF ids_subset_reconcile [of incoming current]]
  by blast

theorem reconcile_idempotent_settled_witness:
  "set (map Task.id' [task ''1'' 20]) \<subseteq> set (map Task.id' [task ''1'' 10]) \<and>
   reconcile (reconcile [task ''1'' 10] [task ''1'' 20]) [task ''1'' 20] = [task ''1'' 20] \<and>
   distinct (map Task.id' [task ''2'' 30, task ''1'' 10]) \<and>
   list_all (\<lambda>p. list_all (\<lambda>u. Task.id' u = Task.id' p \<longrightarrow>
       timestamp u = timestamp p) [task ''2'' 30, task ''1'' 10]) [task ''1'' 10] \<and>
   reconcile (reconcile [task ''1'' 10] [task ''2'' 30, task ''1'' 10]) [task ''2'' 30, task ''1'' 10] =
     [task ''2'' 30, task ''1'' 10]"
proof -
  have a: "set (map Task.id' [task ''1'' 20]) \<subseteq> set (map Task.id' [task ''1'' 10])"
    by (simp add: task_def)
  have b: "distinct (map Task.id' [task ''2'' 30, task ''1'' 10])"
    "list_all (\<lambda>p. list_all (\<lambda>u. Task.id' u = Task.id' p \<longrightarrow>
       timestamp u = timestamp p) [task ''2'' 30, task ''1'' 10]) [task ''1'' 10]"
    by (simp_all add: task_def)
  have c: "reconcile [task ''1'' 10] [task ''1'' 20] = [task ''1'' 20]"
    "reconcile [task ''1'' 10] [task ''2'' 30, task ''1'' 10] = [task ''2'' 30, task ''1'' 10]"
    by (simp_all add: reconcile_def sort_array_def task_def by_timestamp_desc_def)
  show ?thesis
    using reconcile_idempotent_settled [of "[task ''1'' 20]" "[task ''1'' 10]"]
      reconcile_idempotent_settled [of "[task ''2'' 30, task ''1'' 10]" "[task ''1'' 10]"] a b c
    by simp
qed

text \<open>
  C6 as stated fails: for the held list \<open>[{id: 1, ts: 10}]\<close> and the poll
  \<open>[{id: 2, ts: 30}, {id: 1, ts: 20}]\<close>, one reconciliation adds task 2 and leaves the
  timestamp of task 1 at 10; the second one sets it to 20.
\<close>

theorem reconcile_not_idempotent:
  "reconcile [task ''1'' 10] [task ''2'' 30, task ''1'' 20] = [task ''2'' 30, task ''1'' 10] \<and>
   reconcile (reconcile [task ''1'' 10] [task ''2'' 30, task ''1'' 20])
     [task ''2'' 30, task ''1'' 20] = [task ''2'' 30, task ''1'' 20] \<and>
   [task ''2'' 30, task ''1'' 20] \<noteq> [task ''2'' 30, task ''1'' 10]"
  by (simp add: reconcile_def sort_array_def task_def by_timestamp_desc_def)

text \<open>
  C10. For a held list and a polled list with pairwise distinct ids each, the ids of the
  reconciled list are those of the held list together with the incoming ids absent from
  it, each exactly once: as a multiset, without duplicates, and as a set the ids of both.
\<close>

theorem reconcile_ids:
  "distinct (map Task.id' current) \<Longrightarrow> distinct (map Task.id' incoming) \<Longrightarrow>
     mset (map Task.id' (reconcile current incoming)) =
       mset (map Task.id' current) +
       mset (filter (\<lambda>i. i \<notin> set (map Task.id' current)) (map Task.id' incoming)) \<and>
     distinct (map Task.id' (reconcile current incoming)) \<and>
     set (map Task.id' (reconcile current incoming)) =
       set (map Task.id' current) \<union> set (map Task.id' incoming)"
proof -
  assume dc: "distinct (map Task.id' current)" and di: "distinct (map Task.id' incoming)"
  let ?new = "filter (\<lambda>i. i \<notin> set (map Task.id' current)) (map Task.id' incoming)"
  have m: "mset (map Task.id' (reconcile current incoming)) = mset (map Task.id' current @ ?new)"
    by (simp only: ids_reconcile mset_append)
  have "distinct (map Task.id' current @ ?new)"
    using dc di by auto
  with m have d: "distinct (map Task.id' (reconcile current incoming))"
    by (metis mset_eq_imp_distinct_iff)
  have "set (map Task.id' (reconcile current incoming)) = set (map Task.id' current @ ?new)"
    using m by (rule mset_eq_setD)
  then have s: "set (map Task.id' (reconcile current incoming)) =
       set (map Task.id' current) \<union> set (map Task.id' incoming)"
    by auto
  show ?thesis using ids_reconcile [of current incoming] d s by blast
qed

theorem reconcile_ids_witness:
  "distinct (map Task.id' [task ''1'' 10]) \<and>
   distinct (map Task.id' [task ''2'' 30, task ''1'' 20]) \<and>
   mset (map Task.id' (reconcile [task ''1'' 10] [task ''2'' 30, task ''1'' 20])) = {#''1'', ''2''#} \<and>
   distinct (map Task.id' (reconcile [task ''1'' 10] [task ''2'' 30, task ''1'' 20]))"
proof -
  have a: "distinct (map Task.id' [task ''1'' 10])"
    and b: "distinct (map Task.id' [task ''2'' 30, task ''1'' 20])"
    by (simp_all add: task_def)
  show ?thesis
    using reconcile_ids [OF a b] a b by (simp add: task_def)
qed

section \<open>The polling loops: the claims\<close>

lemma poll_conversation_failed: "failed r \<Longrightarrow> poll_conversation_settled r s = s"
  by (cases r) (auto simp: failed_def poll_conversation_settled_def)

lemma poll_tasks_failed: "failed r \<Longrightarrow> poll_tasks_settled r s = s"
  by (cases r) (auto simp: failed_def poll_tasks_settled_def)

lemma poll_conversation_error: "error (poll_conversation_settled r s) = error s"
  by (cases r) (auto simp: poll_conversation_settled_def split: option.splits)

lemma poll_tasks_error: "error (poll_tasks_settled r s) = error s"
  by (cases r) (auto simp: poll_tasks_settled_def split: option.splits)

text \<open>
  C8. When the fetch of a poll of the conversation loop, or of the task-list loop, throws
  or returns a non-success status, the state of the application, with the held
  conversation, the held task list and the error shown, is left as it was. No tick and
  no settled poll, failed or not, changes the error shown: only \<^verbatim>\<open>loadTasks\<close> and
  \<^verbatim>\<open>loadConversation\<close>, which the user starts, set it.
\<close>

theorem poll_failure_silent:
  "(i < length (inflight sys) \<and> inflight sys ! i = PollConversation src x \<and> failed r \<longrightarrow>
      app (step (SettleConversation i r) sys) = app sys) \<and>
   (i < length (inflight sys) \<and> inflight sys ! i = PollTasks src \<and> failed r' \<longrightarrow>
      app (step (SettleTasks i r') sys) = app sys) \<and>
   (i < length (inflight sys) \<and> inflight sys ! i = PollConversation src x \<longrightarrow>
      error (app (step (SettleConversation i r) sys)) = error (app sys)) \<and>
   (i < length (inflight sys) \<and> inflight sys ! i = PollTasks src \<longrightarrow>
      error (app (step (SettleTasks i r') sys)) = error (app sys)) \<and>
   error (app (step TaskListTick sys)) = error (app sys) \<and>
   error (app (step ConversationTick sys)) = error (app sys)"
  by (simp add: poll_conversation_failed poll_tasks_failed poll_conversation_error
      poll_tasks_error)

lemma run_append: "run (es @ es') sys = run es' (run es sys)"
  by (simp add: run_def)

lemma at_selected_X_polling:
  "run selected_X_polling mounted =
     \<lparr>app = \<lparr>source = Nightly, tasks = [task ''X'' 2, task ''Y'' 1], selectedTask = Some ''X'',
             conversation = Some convX, loadingTasks = False, loadingConversation = False,
             error = None, uploadedFileName = None\<rparr>,
      inflight = [PollConversation Nightly ''X'']\<rparr>"
  by (simp add: run_def selected_X_polling_def mounted_def loadTasks_begin_def
      loadTasks_settled_def loadConversation_begin_def loadConversation_settled_def ok_def
      without_def task_def truthy_string_def)

lemma at_switched_to_Y:
  "run switched_to_Y mounted =
     \<lparr>app = \<lparr>source = Nightly, tasks = [task ''X'' 2, task ''Y'' 1], selectedTask = Some ''Y'',
             conversation = Some convY, loadingTasks = False, loadingConversation = False,
             error = None, uploadedFileName = None\<rparr>,
      inflight = [PollConversation Nightly ''X'']\<rparr>"
  by (simp add: switched_to_Y_def run_append at_selected_X_polling)
    (simp add: run_def loadConversation_begin_def loadConversation_settled_def ok_def
      without_def task_def)

text \<open>
  C5 fails on the code. The fetch for X is in flight when the user selects Y; after the
  conversation of Y has arrived, the response for X settles and replaces it, while Y
  stays selected. Neither the callback of the interval nor \<^verbatim>\<open>loadConversation\<close>
  compares the task it fetched with the selected one, though the comment before
  \<^verbatim>\<open>setConversation(data)\<close> says "Only set if this is still the selected task".
\<close>

theorem stale_response_overwrites:
  "selectedTask (app (run selected_X_polling mounted)) = Some ''X'' \<and>
   inflight (run selected_X_polling mounted) = [PollConversation Nightly ''X''] \<and>
   selectedTask (app (run switched_to_Y mounted)) = Some ''Y'' \<and>
   conversation (app (run switched_to_Y mounted)) = Some convY \<and>
   inflight (run switched_to_Y mounted) = [PollConversation Nightly ''X''] \<and>
   selectedTask (app (run stale_X_arrives mounted)) = Some ''Y'' \<and>
   conversation (app (run stale_X_arrives mounted)) = Some convX \<and>
   convX \<noteq> convY"
  by (simp add: stale_X_arrives_def run_append at_switched_to_Y at_selected_X_polling)
    (simp add: run_def poll_conversation_settled_def ok_def without_def convX_def convY_def
      plain_def)

theorem poll_failure_silent_witness:
  "inflight (run selected_X_polling mounted) ! 0 = PollConversation Nightly ''X'' \<and>
   failed (Response 500 (None :: Message list option)) \<and>
   app (step (SettleConversation 0 (Response 500 None)) (run selected_X_polling mounted)) =
     app (run selected_X_polling mounted) \<and>
   conversation (app (step (SettleConversation 0 Rejected) (run selected_X_polling mounted))) =
     Some convX"
proof -
  have a: "0 < length (inflight (run selected_X_polling mounted))"
    "inflight (run selected_X_polling mounted) ! 0 = PollConversation Nightly ''X''"
    by (simp_all add: at_selected_X_polling)
  have b: "failed (Response 500 (None :: Message list option))" "failed (Rejected :: Message list fetched)"
    by (simp_all add: failed_def ok_def)
  have c: "conversation (app (run selected_X_polling mounted)) = Some convX"
    by (simp add: at_selected_X_polling)
  show ?thesis
    using poll_failure_silent [of 0 "run selected_X_polling mounted" Nightly "''X''"
        "Response 500 None"]
      poll_failure_silent [of 0 "run selected_X_polling mounted" Nightly "''X''" Rejected]
      a b c
    by simp
qed

end
